theory Spec2Isabelle
  imports Main "HOL-Library.Word"
begin

section \<open>The protoc plugin \<open>protoc-gen-example\<close>: data model\<close>

text \<open>
  The generator of \<open>protocol-buffers/protoc-gen-example/main.go\<close> reads descriptors
  through the accessors of the protobuf library (\<open>GetName\<close>, \<open>GetPackage\<close>,
  \<open>GetLabel\<close>, \<open>GetType\<close>, \<open>GetTypeName\<close>) and through the slices
  \<open>Field\<close>, \<open>NestedType\<close>, \<open>MessageType\<close>, \<open>FileToGenerate\<close> and
  \<open>ProtoFile\<close>. A descriptor is modelled by what these accessors return: Go strings
  are byte sequences (\<open>string\<close>, a list of 8-bit characters), the enumerations
  \<open>FieldDescriptorProto_Type\<close> and \<open>FieldDescriptorProto_Label\<close> are Go
  \<open>int32\<close> values (\<open>32 word\<close>), slices are lists.
\<close>

type_synonym FieldDescriptorProto_Type = "32 word"
type_synonym FieldDescriptorProto_Label = "32 word"

text \<open>The enumeration numbers of \<open>descriptor.proto\<close>.\<close>

definition TYPE_DOUBLE :: FieldDescriptorProto_Type where "TYPE_DOUBLE = 1"
definition TYPE_FLOAT :: FieldDescriptorProto_Type where "TYPE_FLOAT = 2"
definition TYPE_INT64 :: FieldDescriptorProto_Type where "TYPE_INT64 = 3"
definition TYPE_UINT64 :: FieldDescriptorProto_Type where "TYPE_UINT64 = 4"
definition TYPE_INT32 :: FieldDescriptorProto_Type where "TYPE_INT32 = 5"
definition TYPE_FIXED64 :: FieldDescriptorProto_Type where "TYPE_FIXED64 = 6"
definition TYPE_FIXED32 :: FieldDescriptorProto_Type where "TYPE_FIXED32 = 7"
definition TYPE_BOOL :: FieldDescriptorProto_Type where "TYPE_BOOL = 8"
definition TYPE_STRING :: FieldDescriptorProto_Type where "TYPE_STRING = 9"
definition TYPE_GROUP :: FieldDescriptorProto_Type where "TYPE_GROUP = 10"
definition TYPE_MESSAGE :: FieldDescriptorProto_Type where "TYPE_MESSAGE = 11"
definition TYPE_BYTES :: FieldDescriptorProto_Type where "TYPE_BYTES = 12"
definition TYPE_UINT32 :: FieldDescriptorProto_Type where "TYPE_UINT32 = 13"
definition TYPE_ENUM :: FieldDescriptorProto_Type where "TYPE_ENUM = 14"
definition TYPE_SFIXED32 :: FieldDescriptorProto_Type where "TYPE_SFIXED32 = 15"
definition TYPE_SFIXED64 :: FieldDescriptorProto_Type where "TYPE_SFIXED64 = 16"
definition TYPE_SINT32 :: FieldDescriptorProto_Type where "TYPE_SINT32 = 17"
definition TYPE_SINT64 :: FieldDescriptorProto_Type where "TYPE_SINT64 = 18"

definition LABEL_OPTIONAL :: FieldDescriptorProto_Label where "LABEL_OPTIONAL = 1"
definition LABEL_REQUIRED :: FieldDescriptorProto_Label where "LABEL_REQUIRED = 2"
definition LABEL_REPEATED :: FieldDescriptorProto_Label where "LABEL_REPEATED = 3"

definition FEATURE_PROTO3_OPTIONAL :: "32 word" where "FEATURE_PROTO3_OPTIONAL = 1"

record FieldDescriptorProto =
  Field_Name :: string
  Field_Label :: FieldDescriptorProto_Label
  Field_Type :: FieldDescriptorProto_Type
  Field_TypeName :: string

datatype DescriptorProto =
  DescriptorProto (Msg_Name: string) (Msg_Field: "FieldDescriptorProto list")
    (Msg_NestedType: "DescriptorProto list")

record FileDescriptorProto =
  File_Name :: string
  File_Package :: string
  File_MessageType :: "DescriptorProto list"

record CodeGeneratorRequest =
  FileToGenerate :: "string list"
  ProtoFile :: "FileDescriptorProto list"

record CodeGeneratorResponse_File =
  Name :: string
  Content :: string

record CodeGeneratorResponse =
  File :: "CodeGeneratorResponse_File list"
  SupportedFeatures :: "64 word option"

section \<open>Strings and bytes\<close>

definition NL :: char where "NL = CHR 0x0A"
definition TAB :: char where "TAB = CHR 0x09"
definition DQ :: char where "DQ = CHR 0x22"

text \<open>
  Go's conversion \<open>string(c)\<close> of a byte \<open>c\<close> yields the UTF-8 encoding of the code
  point \<open>c\<close>: the byte itself below 128, two bytes from 128 on.
\<close>

definition string_of_byte :: "char \<Rightarrow> string" where
  "string_of_byte c =
     (let n = (of_char c :: nat)
      in if n < 128 then [c]
         else [char_of (192 + n div 64), char_of (128 + n mod 64)])"

section \<open>\<open>getTypeName\<close>\<close>

text \<open>
  \<open>for i := len(fullName) - 1; i >= 0; i-- { if fullName[i] == '.' { return fullName[i+1:] } }\<close>
  and \<open>return fullName\<close> after the loop. The index is a Go \<open>int\<close>; the reads
  \<open>fullName[i]\<close> and \<open>fullName[i+1:]\<close> happen with \<open>0 \<le> i < len\<close> only.
\<close>

function getTypeName_loop :: "string \<Rightarrow> int \<Rightarrow> string" where
  "getTypeName_loop fullName i =
     (if i \<ge> 0 then
        (if fullName ! nat i = CHR ''.'' then drop (nat (i + 1)) fullName
         else getTypeName_loop fullName (i - 1))
      else fullName)"
  by pat_completeness auto
termination
  by (relation "measure (\<lambda>(fullName, i). nat (i + 1))") auto

definition getTypeName :: "string \<Rightarrow> string" where
  "getTypeName fullName = getTypeName_loop fullName (int (length fullName) - 1)"

section \<open>\<open>camelCase\<close>\<close>

text \<open>
  The loop \<open>for i := 0; i < len(s); i++ { c := s[i]; ... }\<close> walks the bytes of
  \<open>s\<close> from left to right; its state is \<open>result\<close> and \<open>nextUpper\<close>.
  \<open>c - 32\<close> is byte arithmetic (modulo 256), \<open>c >= 'a' && c <= 'z'\<close> compares
  byte values.
\<close>

definition is_lower :: "char \<Rightarrow> bool" where
  "is_lower c \<longleftrightarrow>
     (of_char (CHR ''a'') :: nat) \<le> of_char c \<and> (of_char c :: nat) \<le> of_char (CHR ''z'')"

definition sub32 :: "char \<Rightarrow> char" where
  "sub32 c = char_of (((of_char c :: nat) + 256 - 32) mod 256)"

fun camelCase_loop :: "string \<Rightarrow> string \<Rightarrow> bool \<Rightarrow> string" where
  "camelCase_loop [] result nextUpper = result"
| "camelCase_loop (c # s) result nextUpper =
     (if c = CHR ''_'' then camelCase_loop s result True
      else if nextUpper then
        (if is_lower c
         then camelCase_loop s (result @ string_of_byte (sub32 c)) False
         else camelCase_loop s (result @ string_of_byte c) False)
      else camelCase_loop s (result @ string_of_byte c) nextUpper)"

definition camelCase :: "string \<Rightarrow> string" where
  "camelCase s = (if s = [] then [] else camelCase_loop s [] True)"

section \<open>\<open>getGoType\<close>\<close>

definition getGoType :: "FieldDescriptorProto \<Rightarrow> string" where
  "getGoType field =
     (let isRepeated = (Field_Label field = LABEL_REPEATED);
          t = Field_Type field;
          baseType =
            (if t = TYPE_STRING then ''string''
             else if t = TYPE_INT32 then ''int32''
             else if t = TYPE_INT64 then ''int64''
             else if t = TYPE_UINT32 then ''uint32''
             else if t = TYPE_UINT64 then ''uint64''
             else if t = TYPE_BOOL then ''bool''
             else if t = TYPE_FLOAT then ''float32''
             else if t = TYPE_DOUBLE then ''float64''
             else if t = TYPE_BYTES then ''[]byte''
             else if t = TYPE_MESSAGE then ''*'' @ getTypeName (Field_TypeName field)
             else if t = TYPE_ENUM then getTypeName (Field_TypeName field)
             else ''interface{}'')
      in if isRepeated then ''[]'' @ baseType else baseType)"

section \<open>\<open>generateMessage\<close> and \<open>generateFile\<close>\<close>

text \<open>
  Both emitters build their text by \<open>code += ...\<close> in \<open>for ... range\<close> loops over a
  slice: a left fold that appends to the accumulated text. \<open>field_line\<close> is the text
  that one round of the loop over \<open>msg.Field\<close> appends: a tab, the normalized field
  name, a space, the type, and the \<open>json\<close> tag with the declared field name.
\<close>

definition field_line :: "FieldDescriptorProto \<Rightarrow> string" where
  "field_line field =
     (let fieldName = camelCase (Field_Name field);
          fieldType = getGoType field
      in [TAB] @ fieldName @ '' '' @ fieldType @ '' `json:'' @ [DQ] @ Field_Name field
           @ [DQ] @ ''`'' @ [NL])"

fun generateMessage :: "DescriptorProto \<Rightarrow> string \<Rightarrow> string" where
  "generateMessage (DescriptorProto name field nestedType) prefix =
     (let msgName = prefix @ name;
          code = ''// Generated code for message: '' @ msgName @ [NL];
          code = code @ ''type '' @ msgName @ '' struct {'' @ [NL];
          code = foldl (\<lambda>code f. code @ field_line f) code field;
          code = code @ ''}'' @ [NL, NL]
      in foldl (\<lambda>code nested. code @ generateMessage nested (msgName @ ''_'')) code
           nestedType)"

definition generateFile :: "FileDescriptorProto \<Rightarrow> string" where
  "generateFile file =
     (let code = [];
          pkgName = File_Package file;
          pkgName = (if pkgName = [] then ''main'' else pkgName);
          code = code @ ''package '' @ pkgName @ [NL, NL]
      in foldl (\<lambda>code msg. code @ generateMessage msg []) code (File_MessageType file))"

section \<open>\<open>Generate\<close>\<close>

text \<open>
  The inner loop scans \<open>req.ProtoFile\<close> and stops at the first descriptor whose name
  equals \<open>fileName\<close>; \<open>None\<close> is the \<open>nil\<close> that \<open>file\<close> keeps when no descriptor
  matches. The entries of \<open>ProtoFile\<close> are descriptors (a decoded request holds no
  \<open>nil\<close> entry).
\<close>

fun find_file :: "FileDescriptorProto list \<Rightarrow> string \<Rightarrow> FileDescriptorProto option" where
  "find_file [] fileName = None"
| "find_file (f # fs) fileName =
     (if File_Name f = fileName then Some f else find_file fs fileName)"

definition Generate_step ::
  "FileDescriptorProto list \<Rightarrow> CodeGeneratorResponse \<Rightarrow> string \<Rightarrow> CodeGeneratorResponse" where
  "Generate_step protoFile resp fileName =
     (case find_file protoFile fileName of
        None \<Rightarrow> resp
      | Some file \<Rightarrow>
          (let content = generateFile file
           in resp\<lparr>File := File resp @
                [\<lparr>Name = fileName @ ''.generated.go'', Content = content\<rparr>]\<rparr>))"

text \<open>
  The request is an extensible record: \<open>Generate\<close> reads \<open>FileToGenerate\<close> and
  \<open>ProtoFile\<close> only, whatever else the request carries (parameter, compiler version).
\<close>

definition Generate :: "'a CodeGeneratorRequest_scheme \<Rightarrow> CodeGeneratorResponse" where
  "Generate req =
     (let resp = \<lparr>File = [], SupportedFeatures = None\<rparr>;
          resp = foldl (Generate_step (ProtoFile req)) resp (FileToGenerate req)
      in resp\<lparr>SupportedFeatures := Some (scast FEATURE_PROTO3_OPTIONAL)\<rparr>)"

section \<open>The specification's words, for comparison\<close>

text \<open>
  The identifier alphabet of the specification: ASCII letters, digits and underscores.
\<close>

definition is_upper :: "char \<Rightarrow> bool" where
  "is_upper c \<longleftrightarrow>
     (of_char (CHR ''A'') :: nat) \<le> of_char c \<and> (of_char c :: nat) \<le> of_char (CHR ''Z'')"

definition is_digit :: "char \<Rightarrow> bool" where
  "is_digit c \<longleftrightarrow>
     (of_char (CHR ''0'') :: nat) \<le> of_char c \<and> (of_char c :: nat) \<le> of_char (CHR ''9'')"

definition ident_char :: "char \<Rightarrow> bool" where
  "ident_char c \<longleftrightarrow> is_lower c \<or> is_upper c \<or> is_digit c \<or> c = CHR ''_''"

text \<open>
  Splitting on underscores: the segments between consecutive underscores, empty ones
  included (\<open>__a_b__\<close> has the six segments empty, empty, \<open>a\<close>, \<open>b\<close>, empty, empty).
\<close>

fun split_underscore :: "string \<Rightarrow> string list" where
  "split_underscore [] = [[]]"
| "split_underscore (c # s) =
     (if c = CHR ''_'' then [] # split_underscore s
      else (case split_underscore s of
              [] \<Rightarrow> [[c]]
            | seg # segs \<Rightarrow> (c # seg) # segs))"

text \<open>The upper-case letter of a lower-case ASCII letter; every other byte is kept.\<close>

definition to_upper :: "char \<Rightarrow> char" where
  "to_upper c =
     (if is_lower c
      then char_of ((of_char c :: nat) - of_char (CHR ''a'') + of_char (CHR ''A''))
      else c)"

fun capitalize :: "string \<Rightarrow> string" where
  "capitalize [] = []"
| "capitalize (c # seg) = to_upper c # seg"

definition camelCase_spec :: "string \<Rightarrow> string" where
  "camelCase_spec s = concat (map capitalize (split_underscore s))"

text \<open>
  The fixed table of the scalar kinds, and the resolution of the base type as the
  specification words it: scalar kinds through the table, a message kind as a nullable
  reference to the local name, an enum kind as the local name, anything else as the
  untyped placeholder.
\<close>

definition scalar_table :: "(FieldDescriptorProto_Type \<times> string) list" where
  "scalar_table =
     [(TYPE_STRING, ''string''), (TYPE_INT32, ''int32''), (TYPE_INT64, ''int64''),
      (TYPE_UINT32, ''uint32''), (TYPE_UINT64, ''uint64''), (TYPE_BOOL, ''bool''),
      (TYPE_FLOAT, ''float32''), (TYPE_DOUBLE, ''float64''), (TYPE_BYTES, ''[]byte'')]"

definition base_type_spec :: "FieldDescriptorProto \<Rightarrow> string" where
  "base_type_spec field =
     (case map_of scalar_table (Field_Type field) of
        Some name \<Rightarrow> name
      | None \<Rightarrow>
          if Field_Type field = TYPE_MESSAGE then ''*'' @ getTypeName (Field_TypeName field)
          else if Field_Type field = TYPE_ENUM then getTypeName (Field_TypeName field)
          else ''interface{}'')"

section \<open>Properties of \<open>getTypeName\<close>\<close>

lemmas type_defs =
  TYPE_DOUBLE_def TYPE_FLOAT_def TYPE_INT64_def TYPE_UINT64_def TYPE_INT32_def
  TYPE_FIXED64_def TYPE_FIXED32_def TYPE_BOOL_def TYPE_STRING_def TYPE_GROUP_def
  TYPE_MESSAGE_def TYPE_BYTES_def TYPE_UINT32_def TYPE_ENUM_def TYPE_SFIXED32_def
  TYPE_SFIXED64_def TYPE_SINT32_def TYPE_SINT64_def

lemmas label_defs = LABEL_OPTIONAL_def LABEL_REQUIRED_def LABEL_REPEATED_def

declare getTypeName_loop.simps [simp del]

lemma takeWhile_rev_all:
  "\<forall>k < length s. P (s ! k) \<Longrightarrow> takeWhile P (rev s) = rev s"
  by (simp add: takeWhile_eq_all_conv all_set_conv_all_nth)

lemma last_segment_split:
  assumes i: "i < length s" and dot: "\<not> P (s ! i)"
    and rest: "\<forall>k. i < k \<and> k < length s \<longrightarrow> P (s ! k)"
  shows "rev (takeWhile P (rev s)) = drop (Suc i) s"
proof -
  have s: "s = take i s @ s ! i # drop (Suc i) s"
    using i by (rule id_take_nth_drop)
  have all: "\<And>x. x \<in> set (rev (drop (Suc i) s)) \<Longrightarrow> P x"
    using rest i by (auto simp: in_set_conv_nth)
  have "rev s = rev (drop (Suc i) s) @ s ! i # rev (take i s)"
    by (subst s) simp
  then have "takeWhile P (rev s) = rev (drop (Suc i) s)"
    using all dot by (simp add: takeWhile_tail)
  then show ?thesis by simp
qed

lemma getTypeName_loop_inv:
  "- 1 \<le> i \<Longrightarrow> i < int (length s) \<Longrightarrow>
   (\<forall>k. nat (i + 1) \<le> k \<and> k < length s \<longrightarrow> s ! k \<noteq> CHR ''.'') \<Longrightarrow>
   getTypeName_loop s i = rev (takeWhile (\<lambda>c. c \<noteq> CHR ''.'') (rev s))"
proof (induction s i rule: getTypeName_loop.induct)
  case (1 s i)
  show ?case
  proof (cases "i \<ge> 0")
    case False
    with "1.prems" have "i = - 1" by simp
    with "1.prems" have "\<forall>k < length s. s ! k \<noteq> CHR ''.''" by simp
    then have tw: "takeWhile (\<lambda>c. c \<noteq> CHR ''.'') (rev s) = rev s"
      by (rule takeWhile_rev_all)
    have "getTypeName_loop s i = s"
      using False by (subst getTypeName_loop.simps) simp
    then show ?thesis
      by (simp only: tw rev_rev_ident)
  next
    case nonneg: True
    with "1.prems" have inb: "nat i < length s" by simp
    show ?thesis
    proof (cases "s ! nat i = CHR ''.''")
      case True
      have "\<forall>k. nat i < k \<and> k < length s \<longrightarrow> s ! k \<noteq> CHR ''.''"
        using "1.prems"(3) nonneg by (auto simp: nat_add_distrib)
      with inb True
      have "rev (takeWhile (\<lambda>c. c \<noteq> CHR ''.'') (rev s)) = drop (Suc (nat i)) s"
        by (intro last_segment_split) auto
      moreover have "nat (i + 1) = Suc (nat i)" using nonneg by simp
      ultimately show ?thesis
        using nonneg True by (subst getTypeName_loop.simps) simp
    next
      case False
      have "\<forall>k. nat (i - 1 + 1) \<le> k \<and> k < length s \<longrightarrow> s ! k \<noteq> CHR ''.''"
      proof (intro allI impI)
        fix k assume k: "nat (i - 1 + 1) \<le> k \<and> k < length s"
        show "s ! k \<noteq> CHR ''.''"
        proof (cases "k = nat i")
          case True with False show ?thesis by simp
        next
          case neq: False
          with k nonneg have "nat (i + 1) \<le> k" by (simp add: nat_add_distrib)
          with k "1.prems"(3) show ?thesis by blast
        qed
      qed
      moreover have "- 1 \<le> i - 1" "i - 1 < int (length s)"
        using nonneg "1.prems" by simp_all
      ultimately
      have "getTypeName_loop s (i - 1) = rev (takeWhile (\<lambda>c. c \<noteq> CHR ''.'') (rev s))"
        using "1.IH" [OF nonneg False] by blast
      then show ?thesis
        using nonneg False by (subst getTypeName_loop.simps) simp
    qed
  qed
qed

lemma getTypeName_takeWhile:
  "getTypeName s = rev (takeWhile (\<lambda>c. c \<noteq> CHR ''.'') (rev s))"
  unfolding getTypeName_def by (rule getTypeName_loop_inv) auto

section \<open>Properties of \<open>camelCase\<close>\<close>

lemma ident_char_ascii: "ident_char c \<Longrightarrow> (of_char c :: nat) < 128"
  by (auto simp: ident_char_def is_lower_def is_upper_def is_digit_def)

lemma string_of_byte_ascii: "(of_char c :: nat) < 128 \<Longrightarrow> string_of_byte c = [c]"
  by (simp add: string_of_byte_def)

lemma sub32_to_upper: "is_lower c \<Longrightarrow> sub32 c = to_upper c"
proof -
  assume "is_lower c"
  then have r: "97 \<le> (of_char c :: nat)" "(of_char c :: nat) \<le> 122"
    by (simp_all add: is_lower_def)
  define n where "n = (of_char c :: nat)"
  from r have n: "97 \<le> n" "n \<le> 122" by (simp_all add: n_def)
  then have "n + 256 - 32 = (n - 32) + 256" by linarith
  then have "(n + 256 - 32) mod 256 = (n - 32) mod 256" by (simp only: mod_add_self2)
  also have "\<dots> = n - 32" using n by simp
  also have "\<dots> = n - 97 + 65" using n by linarith
  finally have "((of_char c :: nat) + 256 - 32) mod 256 = of_char c - 97 + 65"
    by (simp add: n_def)
  with \<open>is_lower c\<close> show ?thesis
    by (simp add: sub32_def to_upper_def)
qed

lemma of_char_to_upper:
  "is_lower c \<Longrightarrow> (of_char (to_upper c) :: nat) = of_char c - 32"
  by (auto simp: to_upper_def is_lower_def)

lemma to_upper_ascii: "(of_char c :: nat) < 128 \<Longrightarrow> (of_char (to_upper c) :: nat) < 128"
  by (cases "is_lower c") (auto simp: of_char_to_upper, simp add: to_upper_def)

lemma to_upper_not_underscore: "c \<noteq> CHR ''_'' \<Longrightarrow> to_upper c \<noteq> CHR ''_''"
proof (cases "is_lower c")
  case True
  then have "(of_char c :: nat) \<le> 122"
    by (simp add: is_lower_def)
  with True have "(of_char (to_upper c) :: nat) \<noteq> of_char (CHR ''_'')"
    by (simp add: of_char_to_upper)
  then show ?thesis by auto
next
  case False
  assume "c \<noteq> CHR ''_''"
  with False show ?thesis by (simp add: to_upper_def)
qed

lemma camelCase_loop_acc:
  "camelCase_loop s result nextUpper = result @ camelCase_loop s [] nextUpper"
proof (induction s arbitrary: result nextUpper)
  case Nil
  show ?case by simp
next
  case (Cons c s)
  note IH = Cons.IH
  show ?case
    by (simp, intro conjI impI;
        subst IH, (subst (2) IH)?, simp)
qed

lemma split_underscore_nonempty: "split_underscore s \<noteq> []"
  by (induction s) (auto split: list.splits)

lemma camelCase_loop_step_ascii:
  assumes "(of_char c :: nat) < 128"
  shows "camelCase_loop (c # s) [] nextUpper =
     (if c = CHR ''_'' then camelCase_loop s [] True
      else (if nextUpper then to_upper c else c) # camelCase_loop s [] False)"
proof -
  have up: "is_lower c \<Longrightarrow> string_of_byte (sub32 c) = [to_upper c]"
    using assms by (simp add: sub32_to_upper string_of_byte_ascii to_upper_ascii)
  have nup: "\<not> is_lower c \<Longrightarrow> to_upper c = c"
    by (simp add: to_upper_def)
  have same: "string_of_byte c = [c]"
    using assms by (rule string_of_byte_ascii)
  show ?thesis
    using up nup same
    by (simp, intro conjI impI; subst camelCase_loop_acc; simp)
qed

lemma camelCase_loop_split:
  assumes "\<forall>c\<in>set s. (of_char c :: nat) < 128"
  shows "camelCase_loop s [] True = concat (map capitalize (split_underscore s)) \<and>
         camelCase_loop s [] False =
           hd (split_underscore s) @ concat (map capitalize (tl (split_underscore s)))"
  using assms
proof (induction s)
  case Nil
  show ?case by simp
next
  case (Cons c s)
  then have c: "(of_char c :: nat) < 128" and IH:
    "camelCase_loop s [] True = concat (map capitalize (split_underscore s))"
    "camelCase_loop s [] False =
           hd (split_underscore s) @ concat (map capitalize (tl (split_underscore s)))"
    by simp_all
  obtain seg segs where sp: "split_underscore s = seg # segs"
    using split_underscore_nonempty [of s] by (cases "split_underscore s") auto
  show ?case
    using IH sp by (simp add: camelCase_loop_step_ascii [OF c] del: camelCase_loop.simps)
qed

lemma camelCase_no_underscore_loop:
  "\<forall>c\<in>set s. (of_char c :: nat) < 128 \<Longrightarrow>
   CHR ''_'' \<notin> set (camelCase_loop s [] nextUpper)"
proof (induction s arbitrary: nextUpper)
  case Nil
  show ?case by simp
next
  case (Cons c s)
  then have c: "(of_char c :: nat) < 128" by simp
  from Cons show ?case
    using to_upper_not_underscore [of c]
    by (auto simp add: camelCase_loop_step_ascii [OF c] simp del: camelCase_loop.simps)
qed

lemma camelCase_loop_append:
  "camelCase_loop (xs @ ys) result nextUpper =
     camelCase_loop ys (camelCase_loop xs result nextUpper)
       (if xs = [] then nextUpper else last xs = CHR ''_'')"
proof (induction xs arbitrary: result nextUpper)
  case Nil
  show ?case by simp
next
  case (Cons c xs)
  show ?case
    by (cases "xs = []") (simp_all add: Cons.IH)
qed

lemmas eval_defs = camelCase_def is_lower_def sub32_def string_of_byte_def char_of_eq_iff

section \<open>Properties of the emitters and of \<open>Generate\<close>\<close>

lemma getTypeName_eval: "getTypeName ''.pkg.Outer.Inner'' = ''Inner'' \<and> getTypeName ''.pkg.T'' = ''T''"
  by (simp add: getTypeName_takeWhile)

lemma foldl_append_concat:
  "foldl (\<lambda>code x. code @ f x) init xs = init @ concat (map f xs)"
  by (induction xs arbitrary: init) simp_all

lemma generateMessage_unfold:
  "generateMessage (DescriptorProto name field nestedType) prefix =
     ''// Generated code for message: '' @ prefix @ name @ [NL] @
     ''type '' @ prefix @ name @ '' struct {'' @ [NL] @
     concat (map field_line field) @
     ''}'' @ [NL, NL] @
     concat (map (\<lambda>nested. generateMessage nested (prefix @ name @ ''_'')) nestedType)"
  by (simp add: Let_def foldl_append_concat)

lemma generateMessage_ends_blank:
  "\<exists>body. generateMessage msg prefix = body @ ''}'' @ [NL, NL]"
proof (induction msg prefix rule: generateMessage.induct)
  case (1 name field nestedType prefix)
  show ?case
  proof (cases nestedType rule: rev_cases)
    case Nil
    then show ?thesis
      by (simp only: generateMessage_unfold) (simp del: generateMessage.simps)
  next
    case (snoc ns n)
    then have "n \<in> set nestedType" by simp
    from "1.IH" [OF refl refl refl refl refl this]
    obtain body where "generateMessage n ((prefix @ name) @ ''_'') = body @ ''}'' @ [NL, NL]"
      by blast
    then show ?thesis
      unfolding snoc
      by (simp only: generateMessage_unfold) (simp del: generateMessage.simps)
  qed
qed

lemma generateFile_unfold:
  "generateFile file =
     ''package '' @ (if File_Package file = [] then ''main'' else File_Package file) @
     [NL, NL] @ concat (map (\<lambda>msg. generateMessage msg []) (File_MessageType file))"
  by (simp add: generateFile_def Let_def foldl_append_concat)

lemma find_file_find:
  "find_file protoFile fileName = List.find (\<lambda>f. File_Name f = fileName) protoFile"
  by (induction protoFile) simp_all

lemma find_file_None_iff:
  "find_file protoFile fileName = None \<longleftrightarrow> fileName \<notin> File_Name ` set protoFile"
  by (induction protoFile) auto

lemma Generate_step_File:
  "File (Generate_step protoFile resp fileName) =
     File resp @
       (case List.find (\<lambda>f. File_Name f = fileName) protoFile of
          None \<Rightarrow> []
        | Some file \<Rightarrow>
            [\<lparr>Name = fileName @ ''.generated.go'', Content = generateFile file\<rparr>])"
  by (simp add: Generate_step_def find_file_find Let_def split: option.splits)

lemma foldl_Generate_step_File:
  "File (foldl (Generate_step protoFile) resp names) =
     File resp @
       concat (map (\<lambda>fileName.
         case List.find (\<lambda>f. File_Name f = fileName) protoFile of
           None \<Rightarrow> []
         | Some file \<Rightarrow>
             [\<lparr>Name = fileName @ ''.generated.go'', Content = generateFile file\<rparr>]) names)"
proof (induction names arbitrary: resp)
  case Nil
  show ?case by simp
next
  case (Cons n names)
  show ?case
    by (simp only: foldl_Cons Cons.IH Generate_step_File list.map concat.simps append_assoc)
qed

lemma Generate_File:
  "File (Generate req) =
     concat (map (\<lambda>fileName.
       case List.find (\<lambda>f. File_Name f = fileName) (ProtoFile req) of
         None \<Rightarrow> []
       | Some file \<Rightarrow>
           [\<lparr>Name = fileName @ ''.generated.go'', Content = generateFile file\<rparr>])
       (FileToGenerate req))"
  by (simp add: Generate_def Let_def foldl_Generate_step_File)

lemma matched_names:
  "map Name (concat (map (\<lambda>fileName.
       case List.find (\<lambda>f. File_Name f = fileName) protoFile of
         None \<Rightarrow> []
       | Some file \<Rightarrow>
           [\<lparr>Name = fileName @ ''.generated.go'', Content = generateFile file\<rparr>]) names)) =
   map (\<lambda>n. n @ ''.generated.go'') (filter (\<lambda>n. n \<in> File_Name ` set protoFile) names)"
proof (induction names)
  case Nil
  show ?case by simp
next
  case (Cons n names)
  show ?case
  proof (cases "List.find (\<lambda>f. File_Name f = n) protoFile")
    case None
    then have "n \<notin> File_Name ` set protoFile"
      by (simp add: find_file_None_iff [symmetric] find_file_find)
    with None Cons.IH show ?thesis by simp
  next
    case (Some fd)
    then have "n \<in> File_Name ` set protoFile"
      using find_file_None_iff [of protoFile n] by (simp add: find_file_find)
    with Some Cons.IH show ?thesis by simp
  qed
qed

section \<open>Verified properties\<close>

text \<open>
  Claim C1. \<open>Generate\<close> processes the names of \<open>FileToGenerate\<close> in request
  order. For each name it takes the first descriptor of \<open>ProtoFile\<close> whose name
  equals it; when there is none it appends nothing and goes on; when there is one it
  appends one record, named by the requested name followed by \<open>.generated.go\<close> and
  holding the text of \<open>generateFile\<close> for that descriptor. So the response has one
  record per requested name that has a descriptor, in request order. In the example
  \<open>missing.proto\<close> has no descriptor and \<open>a.proto\<close> has two, of which the first is
  taken.
\<close>

theorem Generate_files:
  "File (Generate req) =
     concat (map (\<lambda>fileName.
       case List.find (\<lambda>f. File_Name f = fileName) (ProtoFile req) of
         None \<Rightarrow> []
       | Some file \<Rightarrow>
           [\<lparr>Name = fileName @ ''.generated.go'', Content = generateFile file\<rparr>])
       (FileToGenerate req)) \<and>
   map Name (File (Generate req)) =
     map (\<lambda>n. n @ ''.generated.go'')
       (filter (\<lambda>n. n \<in> File_Name ` set (ProtoFile req)) (FileToGenerate req)) \<and>
   length (File (Generate req)) =
     length (filter (\<lambda>n. n \<in> File_Name ` set (ProtoFile req)) (FileToGenerate req)) \<and>
   Generate \<lparr>FileToGenerate = [''b.proto'', ''missing.proto'', ''a.proto''],
     ProtoFile =
       [\<lparr>File_Name = ''a.proto'', File_Package = ''first'', File_MessageType = []\<rparr>,
        \<lparr>File_Name = ''b.proto'', File_Package = [], File_MessageType = []\<rparr>,
        \<lparr>File_Name = ''a.proto'', File_Package = ''second'', File_MessageType = []\<rparr>]\<rparr> =
     \<lparr>File =
        [\<lparr>Name = ''b.proto.generated.go'', Content = ''package main'' @ [NL, NL]\<rparr>,
         \<lparr>Name = ''a.proto.generated.go'', Content = ''package first'' @ [NL, NL]\<rparr>],
      SupportedFeatures = Some 1\<rparr>"
proof (intro conjI)
  show files: "File (Generate req) =
     concat (map (\<lambda>fileName.
       case List.find (\<lambda>f. File_Name f = fileName) (ProtoFile req) of
         None \<Rightarrow> []
       | Some file \<Rightarrow>
           [\<lparr>Name = fileName @ ''.generated.go'', Content = generateFile file\<rparr>])
       (FileToGenerate req))"
    by (rule Generate_File)
  show names: "map Name (File (Generate req)) =
     map (\<lambda>n. n @ ''.generated.go'')
       (filter (\<lambda>n. n \<in> File_Name ` set (ProtoFile req)) (FileToGenerate req))"
    by (simp only: files matched_names)
  have "length (File (Generate req)) = length (map Name (File (Generate req)))"
    by simp
  then show "length (File (Generate req)) =
     length (filter (\<lambda>n. n \<in> File_Name ` set (ProtoFile req)) (FileToGenerate req))"
    by (simp only: names length_map)
next
  show "Generate \<lparr>FileToGenerate = [''b.proto'', ''missing.proto'', ''a.proto''],
     ProtoFile =
       [\<lparr>File_Name = ''a.proto'', File_Package = ''first'', File_MessageType = []\<rparr>,
        \<lparr>File_Name = ''b.proto'', File_Package = [], File_MessageType = []\<rparr>,
        \<lparr>File_Name = ''a.proto'', File_Package = ''second'', File_MessageType = []\<rparr>]\<rparr> =
     \<lparr>File =
        [\<lparr>Name = ''b.proto.generated.go'', Content = ''package main'' @ [NL, NL]\<rparr>,
         \<lparr>Name = ''a.proto.generated.go'', Content = ''package first'' @ [NL, NL]\<rparr>],
      SupportedFeatures = Some 1\<rparr>"
    by (simp add: Generate_def Generate_step_def generateFile_def FEATURE_PROTO3_OPTIONAL_def)
qed

text \<open>
  Claim C2. For every string of ASCII letters, digits and underscores, \<open>camelCase\<close>
  returns what the specification describes: the string is split on underscores, the
  first letter of every segment is capitalized, and the segments are concatenated with
  no separator (\<open>camelCase_spec\<close>). No underscore appears in the result, the empty
  string gives the empty string, \<open>user_id\<close> gives \<open>UserId\<close> and \<open>__a_b__\<close>
  gives \<open>AB\<close>. The function is total.
\<close>

theorem camelCase_refines_spec:
  "((\<forall>c\<in>set s. ident_char c) \<longrightarrow>
      camelCase s = camelCase_spec s \<and> CHR ''_'' \<notin> set (camelCase s)) \<and>
   camelCase [] = [] \<and>
   camelCase ''user_id'' = ''UserId'' \<and>
   camelCase ''__a_b__'' = ''AB''"
proof (intro conjI impI)
  assume ident: "\<forall>c\<in>set s. ident_char c"
  then have ascii: "\<forall>c\<in>set s. (of_char c :: nat) < 128"
    by (simp add: ident_char_ascii)
  have loop: "camelCase s = camelCase_loop s [] True"
    by (simp add: camelCase_def)
  show "camelCase s = camelCase_spec s"
    using camelCase_loop_split [OF ascii] by (simp add: loop camelCase_spec_def)
  show "CHR ''_'' \<notin> set (camelCase s)"
    using camelCase_no_underscore_loop [OF ascii, of True] by (simp add: loop)
next
  show "camelCase [] = []"
    by (simp add: camelCase_def)
next
  show "camelCase ''user_id'' = ''UserId''"
    by (simp add: eval_defs)
next
  show "camelCase ''__a_b__'' = ''AB''"
    by (simp add: eval_defs)
qed

theorem camelCase_refines_spec_witness:
  "list_all ident_char ''field_name_2'' \<and>
   camelCase ''field_name_2'' = camelCase_spec ''field_name_2'' \<and>
   camelCase_spec ''field_name_2'' = ''FieldName2'' \<and>
   CHR ''_'' \<notin> set (camelCase ''field_name_2'')"
proof -
  have ident: "\<forall>c\<in>set ''field_name_2''. ident_char c"
    by (simp add: ident_char_def is_lower_def is_digit_def)
  have spec: "camelCase_spec ''field_name_2'' = ''FieldName2''"
    by (simp add: camelCase_spec_def to_upper_def is_lower_def char_of_eq_iff)
  from ident have "list_all ident_char ''field_name_2''"
    by (simp only: list_all_iff)
  with ident spec show ?thesis
    using camelCase_refines_spec [of "''field_name_2''"] by simp
qed

text \<open>
  Claim C3. \<open>getGoType\<close> resolves the base type first (scalar kinds by the fixed
  table, a message kind to \<open>*\<close> and the local name, an enum kind to the local name)
  and then puts \<open>[]\<close> in front of it when the label is repeated. So a repeated
  message field gives \<open>[]*T\<close> and a repeated int32 field gives \<open>[]int32\<close>; a
  singular string field gives \<open>string\<close> and a singular message field that refers to
  \<open>.pkg.Outer.Inner\<close> gives \<open>*Inner\<close>.
\<close>

theorem getGoType_resolution:
  "getGoType field =
     (if Field_Label field = LABEL_REPEATED then ''[]'' @ base_type_spec field
      else base_type_spec field) \<and>
   getGoType \<lparr>Field_Name = n, Field_Label = LABEL_REPEATED, Field_Type = TYPE_MESSAGE,
     Field_TypeName = ''.pkg.T''\<rparr> = ''[]*T'' \<and>
   getGoType \<lparr>Field_Name = n, Field_Label = LABEL_REPEATED, Field_Type = TYPE_INT32,
     Field_TypeName = []\<rparr> = ''[]int32'' \<and>
   getGoType \<lparr>Field_Name = n, Field_Label = LABEL_OPTIONAL, Field_Type = TYPE_STRING,
     Field_TypeName = []\<rparr> = ''string'' \<and>
   getGoType \<lparr>Field_Name = n, Field_Label = LABEL_OPTIONAL, Field_Type = TYPE_MESSAGE,
     Field_TypeName = ''.pkg.Outer.Inner''\<rparr> = ''*Inner''"
proof (intro conjI)
  show "getGoType field =
     (if Field_Label field = LABEL_REPEATED then ''[]'' @ base_type_spec field
      else base_type_spec field)"
    by (simp add: getGoType_def base_type_spec_def scalar_table_def type_defs Let_def)
qed (simp_all add: getGoType_def type_defs label_defs getTypeName_eval)

text \<open>
  Claim C4. For every string, \<open>getTypeName\<close> returns the substring after the last
  \<open>.\<close>: the longest suffix without a dot. A string without a dot is returned whole,
  a string \<open>pre.suf\<close> whose \<open>suf\<close> has no dot gives \<open>suf\<close>, the result never
  holds a dot, and the empty string gives the empty string. The function is total.
\<close>

theorem getTypeName_last_segment:
  "getTypeName s = rev (takeWhile (\<lambda>c. c \<noteq> CHR ''.'') (rev s)) \<and>
   (CHR ''.'' \<notin> set s \<longrightarrow> getTypeName s = s) \<and>
   (CHR ''.'' \<notin> set suf \<longrightarrow> getTypeName (pre @ ''.'' @ suf) = suf) \<and>
   CHR ''.'' \<notin> set (getTypeName s) \<and>
   getTypeName [] = []"
proof (intro conjI impI)
  show "getTypeName s = rev (takeWhile (\<lambda>c. c \<noteq> CHR ''.'') (rev s))"
    by (rule getTypeName_takeWhile)
next
  assume "CHR ''.'' \<notin> set s"
  then have "\<forall>c\<in>set (rev s). c \<noteq> CHR ''.''"
    by auto
  then have "takeWhile (\<lambda>c. c \<noteq> CHR ''.'') (rev s) = rev s"
    by (simp only: takeWhile_eq_all_conv)
  then show "getTypeName s = s"
    by (simp only: getTypeName_takeWhile rev_rev_ident)
next
  assume "CHR ''.'' \<notin> set suf"
  then have tw: "takeWhile (\<lambda>c. c \<noteq> CHR ''.'') (rev suf @ CHR ''.'' # rev pre) = rev suf"
    by (auto simp: takeWhile_tail)
  have r: "rev (pre @ ''.'' @ suf) = rev suf @ CHR ''.'' # rev pre"
    by simp
  show "getTypeName (pre @ ''.'' @ suf) = suf"
    by (simp only: getTypeName_takeWhile r tw rev_rev_ident)
next
  have "\<forall>c\<in>set (takeWhile (\<lambda>c. c \<noteq> CHR ''.'') (rev s)). c \<noteq> CHR ''.''"
    by (auto dest: set_takeWhileD)
  then show "CHR ''.'' \<notin> set (getTypeName s)"
    by (auto simp: getTypeName_takeWhile)
next
  show "getTypeName [] = []"
    by (simp add: getTypeName_takeWhile)
qed

theorem getTypeName_last_segment_witness:
  "CHR ''.'' \<notin> set ''Inner'' \<and>
   getTypeName ''Inner'' = ''Inner'' \<and>
   getTypeName (''.pkg.Outer'' @ ''.'' @ ''Inner'') = ''Inner''"
  using getTypeName_last_segment [of "''Inner''" "''Inner''" "''.pkg.Outer''"]
  by simp

text \<open>
  Claim C5. \<open>generateMessage\<close> emits the comment line and the opening line of a
  definition named by the prefix followed by the message name, then one line per field
  in the order of the descriptor, then the closing line, and after it the output for
  the nested messages in the order of the descriptor, each with the prefix made of the
  emitted name and an underscore. In the first example \<open>Outer\<close> holds \<open>Inner\<close>
  (which holds \<open>Deep\<close>) and \<open>Other\<close>: the definitions come out as \<open>Outer\<close>,
  \<open>Outer_Inner\<close>, \<open>Outer_Inner_Deep\<close>, \<open>Outer_Other\<close>. In the second example
  \<open>Person\<close> has the fields \<open>name\<close> and \<open>tags\<close> and the nested message
  \<open>Address\<close>.
\<close>

theorem generateMessage_structure:
  "generateMessage (DescriptorProto name field nestedType) prefix =
     ''// Generated code for message: '' @ prefix @ name @ [NL] @
     ''type '' @ prefix @ name @ '' struct {'' @ [NL] @
     concat (map field_line field) @
     ''}'' @ [NL, NL] @
     concat (map (\<lambda>nested. generateMessage nested (prefix @ name @ ''_'')) nestedType) \<and>
   generateMessage
     (DescriptorProto ''Outer'' []
        [DescriptorProto ''Inner'' [] [DescriptorProto ''Deep'' [] []],
         DescriptorProto ''Other'' [] []]) [] =
     ''// Generated code for message: Outer'' @ [NL] @
     ''type Outer struct {'' @ [NL] @ ''}'' @ [NL, NL] @
     ''// Generated code for message: Outer_Inner'' @ [NL] @
     ''type Outer_Inner struct {'' @ [NL] @ ''}'' @ [NL, NL] @
     ''// Generated code for message: Outer_Inner_Deep'' @ [NL] @
     ''type Outer_Inner_Deep struct {'' @ [NL] @ ''}'' @ [NL, NL] @
     ''// Generated code for message: Outer_Other'' @ [NL] @
     ''type Outer_Other struct {'' @ [NL] @ ''}'' @ [NL, NL] \<and>
   generateMessage
     (DescriptorProto ''Person''
        [\<lparr>Field_Name = ''name'', Field_Label = LABEL_OPTIONAL, Field_Type = TYPE_STRING,
           Field_TypeName = []\<rparr>,
         \<lparr>Field_Name = ''tags'', Field_Label = LABEL_REPEATED, Field_Type = TYPE_STRING,
           Field_TypeName = []\<rparr>]
        [DescriptorProto ''Address'' [] []]) [] =
     ''// Generated code for message: Person'' @ [NL] @
     ''type Person struct {'' @ [NL] @
     [TAB] @ ''Name string `json:'' @ [DQ] @ ''name'' @ [DQ] @ ''`'' @ [NL] @
     [TAB] @ ''Tags []string `json:'' @ [DQ] @ ''tags'' @ [DQ] @ ''`'' @ [NL] @
     ''}'' @ [NL, NL] @
     ''// Generated code for message: Person_Address'' @ [NL] @
     ''type Person_Address struct {'' @ [NL] @ ''}'' @ [NL, NL]"
proof (intro conjI)
  show "generateMessage (DescriptorProto name field nestedType) prefix =
     ''// Generated code for message: '' @ prefix @ name @ [NL] @
     ''type '' @ prefix @ name @ '' struct {'' @ [NL] @
     concat (map field_line field) @
     ''}'' @ [NL, NL] @
     concat (map (\<lambda>nested. generateMessage nested (prefix @ name @ ''_'')) nestedType)"
    by (rule generateMessage_unfold)
next
  show "generateMessage
     (DescriptorProto ''Outer'' []
        [DescriptorProto ''Inner'' [] [DescriptorProto ''Deep'' [] []],
         DescriptorProto ''Other'' [] []]) [] =
     ''// Generated code for message: Outer'' @ [NL] @
     ''type Outer struct {'' @ [NL] @ ''}'' @ [NL, NL] @
     ''// Generated code for message: Outer_Inner'' @ [NL] @
     ''type Outer_Inner struct {'' @ [NL] @ ''}'' @ [NL, NL] @
     ''// Generated code for message: Outer_Inner_Deep'' @ [NL] @
     ''type Outer_Inner_Deep struct {'' @ [NL] @ ''}'' @ [NL, NL] @
     ''// Generated code for message: Outer_Other'' @ [NL] @
     ''type Outer_Other struct {'' @ [NL] @ ''}'' @ [NL, NL]"
    by simp
next
  show "generateMessage
     (DescriptorProto ''Person''
        [\<lparr>Field_Name = ''name'', Field_Label = LABEL_OPTIONAL, Field_Type = TYPE_STRING,
           Field_TypeName = []\<rparr>,
         \<lparr>Field_Name = ''tags'', Field_Label = LABEL_REPEATED, Field_Type = TYPE_STRING,
           Field_TypeName = []\<rparr>]
        [DescriptorProto ''Address'' [] []]) [] =
     ''// Generated code for message: Person'' @ [NL] @
     ''type Person struct {'' @ [NL] @
     [TAB] @ ''Name string `json:'' @ [DQ] @ ''name'' @ [DQ] @ ''`'' @ [NL] @
     [TAB] @ ''Tags []string `json:'' @ [DQ] @ ''tags'' @ [DQ] @ ''`'' @ [NL] @
     ''}'' @ [NL, NL] @
     ''// Generated code for message: Person_Address'' @ [NL] @
     ''type Person_Address struct {'' @ [NL] @ ''}'' @ [NL, NL]"
    by (simp add: field_line_def getGoType_def type_defs label_defs eval_defs)
qed

text \<open>
  Claim C6. \<open>generateFile\<close> emits the package line first, with the package string
  of the descriptor or with \<open>main\<close> when that string is empty, followed by an empty
  line, and then the output of \<open>generateMessage\<close> (with the empty prefix) for every
  top-level message in the order of the descriptor. The output for a message always
  ends with the closing line and an empty line, so an empty line separates the
  message blocks.
\<close>

theorem generateFile_structure:
  "generateFile file =
     ''package '' @ (if File_Package file = [] then ''main'' else File_Package file) @
     [NL, NL] @ concat (map (\<lambda>msg. generateMessage msg []) (File_MessageType file)) \<and>
   (\<exists>body. generateMessage msg prefix = body @ ''}'' @ [NL, NL]) \<and>
   generateFile \<lparr>File_Name = ''a.proto'', File_Package = [], File_MessageType = []\<rparr> =
     ''package main'' @ [NL, NL] \<and>
   generateFile \<lparr>File_Name = ''a.proto'', File_Package = ''demo'',
     File_MessageType = [DescriptorProto ''A'' [] [], DescriptorProto ''B'' [] []]\<rparr> =
     ''package demo'' @ [NL, NL] @
     ''// Generated code for message: A'' @ [NL] @ ''type A struct {'' @ [NL] @
     ''}'' @ [NL, NL] @
     ''// Generated code for message: B'' @ [NL] @ ''type B struct {'' @ [NL] @
     ''}'' @ [NL, NL]"
proof (intro conjI)
  show "generateFile file =
     ''package '' @ (if File_Package file = [] then ''main'' else File_Package file) @
     [NL, NL] @ concat (map (\<lambda>msg. generateMessage msg []) (File_MessageType file))"
    by (rule generateFile_unfold)
  show "\<exists>body. generateMessage msg prefix = body @ ''}'' @ [NL, NL]"
    by (rule generateMessage_ends_blank)
qed (simp_all add: generateFile_def)

text \<open>
  Claim C7. For a field whose kind is none of the eleven kinds of the switch,
  \<open>getGoType\<close> returns \<open>interface{}\<close>, with \<open>[]\<close> in front when the label is
  repeated. The resolver has no failing branch: every kind value, also one that
  \<open>descriptor.proto\<close> does not name, gets a type.
\<close>

theorem getGoType_unknown_kind:
  assumes "Field_Type field \<notin> {TYPE_STRING, TYPE_INT32, TYPE_INT64, TYPE_UINT32, TYPE_UINT64,
     TYPE_BOOL, TYPE_FLOAT, TYPE_DOUBLE, TYPE_BYTES, TYPE_MESSAGE, TYPE_ENUM}"
  shows "getGoType field =
     (if Field_Label field = LABEL_REPEATED then ''[]interface{}'' else ''interface{}'')"
  using assms by (simp add: getGoType_def)

theorem getGoType_unknown_kind_witness:
  "getGoType \<lparr>Field_Name = ''g'', Field_Label = LABEL_REPEATED, Field_Type = TYPE_GROUP,
     Field_TypeName = ''.pkg.G''\<rparr> = ''[]interface{}'' \<and>
   getGoType \<lparr>Field_Name = ''s'', Field_Label = LABEL_OPTIONAL, Field_Type = TYPE_SINT64,
     Field_TypeName = []\<rparr> = ''interface{}'' \<and>
   getGoType \<lparr>Field_Name = ''u'', Field_Label = LABEL_REQUIRED, Field_Type = 4242,
     Field_TypeName = []\<rparr> = ''interface{}'' \<and>
   getGoType \<lparr>Field_Name = ''z'', Field_Label = LABEL_OPTIONAL, Field_Type = 0,
     Field_TypeName = []\<rparr> = ''interface{}''"
  using
    getGoType_unknown_kind [of "\<lparr>Field_Name = ''g'', Field_Label = LABEL_REPEATED,
      Field_Type = TYPE_GROUP, Field_TypeName = ''.pkg.G''\<rparr>"]
    getGoType_unknown_kind [of "\<lparr>Field_Name = ''s'', Field_Label = LABEL_OPTIONAL,
      Field_Type = TYPE_SINT64, Field_TypeName = []\<rparr>"]
    getGoType_unknown_kind [of "\<lparr>Field_Name = ''u'', Field_Label = LABEL_REQUIRED,
      Field_Type = 4242, Field_TypeName = []\<rparr>"]
    getGoType_unknown_kind [of "\<lparr>Field_Name = ''z'', Field_Label = LABEL_OPTIONAL,
      Field_Type = 0, Field_TypeName = []\<rparr>"]
  by (simp add: type_defs label_defs)

text \<open>
  Claim C8. The response of \<open>Generate\<close> always has \<open>SupportedFeatures\<close> set to
  \<open>FEATURE_PROTO3_OPTIONAL\<close> (the value 1), also when no requested name has a
  descriptor and the response holds no record.
\<close>

theorem Generate_supported_features:
  "SupportedFeatures (Generate req) = Some (scast FEATURE_PROTO3_OPTIONAL) \<and>
   SupportedFeatures (Generate req) = Some 1 \<and>
   Generate \<lparr>FileToGenerate = [''missing.proto''],
     ProtoFile = [\<lparr>File_Name = ''a.proto'', File_Package = ''demo'',
       File_MessageType = []\<rparr>]\<rparr> =
     \<lparr>File = [], SupportedFeatures = Some 1\<rparr>"
  by (simp add: Generate_def Generate_step_def FEATURE_PROTO3_OPTIONAL_def Let_def)

text \<open>
  Claim C10. Capitalization applies to the lower-case ASCII letters only. Let \<open>c\<close>
  be the first character of a segment (the first character of the input, or the
  character after an underscore) and \<open>d\<close> the character after it, both from the
  identifier alphabet and neither an underscore. Then \<open>c\<close> is written as \<open>c - 32\<close>
  when it is a lower-case letter and unchanged otherwise (a digit, an upper-case
  letter), and in both cases \<open>d\<close> is written unchanged and the rest of the input is
  processed with no capitalization pending. So \<open>user_2fa\<close> gives \<open>User2fa\<close>.
\<close>

theorem camelCase_segment_start:
  assumes "pre = [] \<or> last pre = CHR ''_''"
    and "ident_char c" and "c \<noteq> CHR ''_''"
    and "ident_char d" and "d \<noteq> CHR ''_''"
  shows "camelCase (pre @ c # d # rest) =
           camelCase pre @ (if is_lower c then sub32 c else c) # d #
             camelCase_loop rest [] False"
proof -
  have c: "(of_char c :: nat) < 128" and d: "(of_char d :: nat) < 128"
    using assms by (simp_all add: ident_char_ascii)
  have up: "to_upper c = (if is_lower c then sub32 c else c)"
    by (simp add: sub32_to_upper) (simp add: to_upper_def)
  have pre: "camelCase pre = camelCase_loop pre [] True"
    by (simp add: camelCase_def)
  have "camelCase (pre @ c # d # rest) = camelCase_loop (pre @ c # d # rest) [] True"
    by (simp add: camelCase_def)
  also have "\<dots> = camelCase_loop (c # d # rest) (camelCase_loop pre [] True) True"
    using assms(1) by (subst camelCase_loop_append) auto
  also have "\<dots> = camelCase_loop pre [] True @ camelCase_loop (c # d # rest) [] True"
    by (rule camelCase_loop_acc)
  also have "camelCase_loop (c # d # rest) [] True =
      to_upper c # camelCase_loop (d # rest) [] False"
    using assms(3) by (simp add: camelCase_loop_step_ascii [OF c] del: camelCase_loop.simps)
  also have "camelCase_loop (d # rest) [] False = d # camelCase_loop rest [] False"
    using assms(5) by (simp add: camelCase_loop_step_ascii [OF d] del: camelCase_loop.simps)
  finally show ?thesis
    by (simp only: pre up)
qed

theorem camelCase_segment_start_witness:
  "(''user_'' = [] \<or> last ''user_'' = CHR ''_'') \<and>
   ident_char (CHR ''2'') \<and> CHR ''2'' \<noteq> CHR ''_'' \<and>
   ident_char (CHR ''f'') \<and> CHR ''f'' \<noteq> CHR ''_'' \<and>
   \<not> is_lower (CHR ''2'') \<and>
   camelCase ''user_2fa'' = ''User2fa'' \<and> camelCase ''user_2fa'' \<noteq> ''User2Fa''"
proof -
  have h1: "''user_'' = [] \<or> last ''user_'' = CHR ''_''" by simp
  have h2: "ident_char (CHR ''2'')" by (simp add: ident_char_def is_digit_def)
  have h3: "CHR ''2'' \<noteq> CHR ''_''" by simp
  have h4: "ident_char (CHR ''f'')" by (simp add: ident_char_def is_lower_def)
  have h5: "CHR ''f'' \<noteq> CHR ''_''" by simp
  have nl: "\<not> is_lower (CHR ''2'')" by (simp add: is_lower_def)
  have pre: "camelCase ''user_'' = ''User''" by (simp add: eval_defs)
  have rest: "camelCase_loop ''a'' [] False = ''a''" by (simp add: eval_defs)
  from camelCase_segment_start [OF h1 h2 h3 h4 h5, of "''a''"]
  have "camelCase ''user_2fa'' = ''User2fa''"
    unfolding rest by (simp add: nl pre)
  with h1 h2 h3 h4 h5 nl show ?thesis by simp
qed

end
